theory Spec2Isabelle
  imports Main "HOL-Library.Sublist"
begin

section \<open>Data of the crawler (src/lib/crawler.ts)\<close>

text \<open>
  A crawled page: \<^verbatim>\<open>interface Page { url: string; content: string }\<close>.
\<close>

record page =
  url :: string
  content :: string

text \<open>
  The fields of class \<^verbatim>\<open>Crawler\<close>: the set \<^verbatim>\<open>seen\<close>, the array \<^verbatim>\<open>pages\<close>, the array
  \<^verbatim>\<open>queue\<close> of \<^verbatim>\<open>{url, depth}\<close> entries and the two constructor parameters. JavaScript
  numbers are modelled as \<open>int\<close> (the limits may be negative). The last field is not a
  field of the class: \<open>requests\<close> is the trace of the calls of \<^verbatim>\<open>fetchPage\<close>, in call
  order, each with the depth of the queue entry that was being processed.
\<close>

record crawler =
  seen :: "string set"
  pages :: "page list"
  queue :: "(string \<times> int) list"
  maxDepth :: int
  maxPages :: int
  requests :: "(string \<times> int) list"

datatype error = TypeError | RangeError | SplitterError

text \<open>
  What lies outside the repository is a parameter. \<open>fetch\<close> is the platform's
  \<^verbatim>\<open>fetch\<close>: \<open>None\<close> when the promise rejects, otherwise a response with its status
  code and its body (\<open>None\<close> when \<^verbatim>\<open>response.text()\<close> rejects). \<open>strip_href\<close> is
  cheerio's load, \<^verbatim>\<open>$('a').removeAttr('href')\<close> and \<^verbatim>\<open>$.html()\<close>; \<open>translate\<close> is
  \<^verbatim>\<open>NodeHtmlMarkdown.translate\<close>; \<open>anchor_hrefs\<close> gives the \<^verbatim>\<open>href\<close> attribute of
  every \<^verbatim>\<open>a[href]\<close> element in document order; \<open>new_URL href base\<close> is
  \<^verbatim>\<open>new URL(href, base).href\<close>, \<open>None\<close> when the constructor throws. The web is a function
  of the address: a crawl on a new crawler requests an address at most once. A request
  that never settles is not modelled.
\<close>

record response =
  status :: nat
  text_body :: "string option"

text \<open>
  The fields that \<^verbatim>\<open>seed\<close> gives to the text splitter, and \<^verbatim>\<open>splitterOptions\<close> as the
  caller passes it: a key that is absent is \<open>None\<close>. The constructor of the splitter is
  a parameter as well: \<open>None\<close> when it throws, otherwise its \<^verbatim>\<open>splitText\<close>.
\<close>

record splitter_params =
  chunkSize :: int
  chunkOverlap :: int

record splitter_options =
  chunkSize_opt :: "int option"
  chunkOverlap_opt :: "int option"

record world =
  fetch :: "string \<Rightarrow> response option"
  strip_href :: "string \<Rightarrow> string"
  translate :: "string \<Rightarrow> string"
  anchor_hrefs :: "string \<Rightarrow> string list"
  new_URL :: "string \<Rightarrow> string \<Rightarrow> string option"
  text_splitter :: "splitter_params \<Rightarrow> (string \<Rightarrow> string list) option"

section \<open>Operations of the crawler\<close>

definition new_Crawler :: "int option \<Rightarrow> int option \<Rightarrow> crawler" where
  "new_Crawler maxDepth_arg maxPages_arg =
     \<lparr>seen = {}, pages = [], queue = [],
      maxDepth = (case maxDepth_arg of None \<Rightarrow> 2 | Some d \<Rightarrow> d),
      maxPages = (case maxPages_arg of None \<Rightarrow> 1 | Some p \<Rightarrow> p),
      requests = []\<rparr>"

definition isTooDeep :: "crawler \<Rightarrow> int \<Rightarrow> bool" where
  "isTooDeep s depth = (depth > maxDepth s)"

definition isAlreadySeen :: "crawler \<Rightarrow> string \<Rightarrow> bool" where
  "isAlreadySeen s u = (u \<in> seen s)"

definition shouldContinueCrawling :: "crawler \<Rightarrow> bool" where
  "shouldContinueCrawling s = (length (queue s) > 0 \<and> int (length (pages s)) < maxPages s)"

definition addToQueue :: "crawler \<Rightarrow> string \<Rightarrow> int option \<Rightarrow> crawler" where
  "addToQueue s u depth_arg =
     s\<lparr>queue := queue s @ [(u, case depth_arg of None \<Rightarrow> 0 | Some d \<Rightarrow> d)]\<rparr>"

definition addNewUrlsToQueue :: "crawler \<Rightarrow> string list \<Rightarrow> int \<Rightarrow> crawler" where
  "addNewUrlsToQueue s urls depth = s\<lparr>queue := queue s @ map (\<lambda>u. (u, depth + 1)) urls\<rparr>"

definition fetchPage :: "world \<Rightarrow> string \<Rightarrow> string" where
  "fetchPage w u =
     (case fetch w u of
        None \<Rightarrow> ''''
      | Some r \<Rightarrow> (case text_body r of None \<Rightarrow> '''' | Some b \<Rightarrow> b))"

definition parseHtml :: "world \<Rightarrow> string \<Rightarrow> string" where
  "parseHtml w html = translate w (strip_href w html)"

text \<open>
  The callback of \<^verbatim>\<open>.each\<close> in \<^verbatim>\<open>extractUrls\<close>, run over the remaining anchors: an empty
  \<^verbatim>\<open>href\<close> is skipped, an \<^verbatim>\<open>href\<close> that \<^verbatim>\<open>new URL\<close> rejects throws out of the function.
\<close>

fun extractUrls_each :: "world \<Rightarrow> string \<Rightarrow> string list \<Rightarrow> string list \<Rightarrow> error + string list" where
  "extractUrls_each w baseUrl urls [] = Inr urls"
| "extractUrls_each w baseUrl urls (href # rest) =
     (if href \<noteq> [] then
        (case new_URL w href baseUrl of
           None \<Rightarrow> Inl TypeError
         | Some u \<Rightarrow> extractUrls_each w baseUrl (urls @ [u]) rest)
      else extractUrls_each w baseUrl urls rest)"

definition extractUrls :: "world \<Rightarrow> string \<Rightarrow> string \<Rightarrow> error + string list" where
  "extractUrls w html baseUrl = extractUrls_each w baseUrl [] (anchor_hrefs w html)"

text \<open>
  One pass through the body of the \<^verbatim>\<open>while\<close> loop of \<^verbatim>\<open>crawl\<close>. The result is
  \<open>Inl\<close> when the body throws; the state is the one reached at that point.
\<close>

definition crawl_body :: "world \<Rightarrow> crawler \<Rightarrow> (error + unit) \<times> crawler" where
  "crawl_body w s =
     (case queue s of
        [] \<Rightarrow> (Inl TypeError, s)
      | (u, depth) # rest \<Rightarrow>
          (let s1 = s\<lparr>queue := rest\<rparr> in
           if isTooDeep s1 depth \<or> isAlreadySeen s1 u then (Inr (), s1)
           else
             (let s2 = s1\<lparr>seen := insert u (seen s1)\<rparr>;
                  html = fetchPage w u;
                  s3 = s2\<lparr>requests := requests s2 @ [(u, depth)]\<rparr>;
                  s4 = s3\<lparr>pages := pages s3 @ [\<lparr>url = u, content = parseHtml w html\<rparr>]\<rparr>
              in case extractUrls w html u of
                   Inl e \<Rightarrow> (Inl e, s4)
                 | Inr urls \<Rightarrow> (Inr (), addNewUrlsToQueue s4 urls depth))))"

function crawl_loop :: "world \<Rightarrow> crawler \<Rightarrow> (error + page list) \<times> crawler" where
  "crawl_loop w s =
     (if shouldContinueCrawling s then
        (case fst (crawl_body w s) of
           Inl e \<Rightarrow> (Inl e, snd (crawl_body w s))
         | Inr _ \<Rightarrow> crawl_loop w (snd (crawl_body w s)))
      else (Inr (pages s), s))"
  by pat_completeness auto

definition crawl :: "world \<Rightarrow> crawler \<Rightarrow> string \<Rightarrow> (error + page list) \<times> crawler" where
  "crawl w s startUrl = crawl_loop w (addToQueue s startUrl None)"

text \<open>
  The states the loop of \<^verbatim>\<open>crawl\<close> passes through, from the state \<open>s\<close> in which the
  loop is entered: \<open>loop_state w s t\<close> when \<open>t\<close> is reached from \<open>s\<close> by passes through
  the body, each taken with the loop condition true.
\<close>

inductive loop_state :: "world \<Rightarrow> crawler \<Rightarrow> crawler \<Rightarrow> bool" for w s where
  entry: "loop_state w s s"
| pass: "loop_state w s t \<Longrightarrow> shouldContinueCrawling t \<Longrightarrow> loop_state w s (snd (crawl_body w t))"

text \<open>
  Link hops: \<open>hops w a n u\<close> when \<open>u\<close> is reached from \<open>a\<close> by following \<open>n\<close> links, a
  link of a page being an address that \<^verbatim>\<open>extractUrls\<close> returns for what \<^verbatim>\<open>fetchPage\<close>
  returns for the page.
\<close>

definition links :: "world \<Rightarrow> string \<Rightarrow> error + string list" where
  "links w u = extractUrls w (fetchPage w u) u"

inductive hops :: "world \<Rightarrow> string \<Rightarrow> nat \<Rightarrow> string \<Rightarrow> bool" for w a where
  seed_hop: "hops w a 0 a"
| link_hop: "hops w a n u \<Longrightarrow> links w u = Inr vs \<Longrightarrow> v \<in> set vs \<Longrightarrow> hops w a (Suc n) v"

section \<open>The chunking pass and \<^verbatim>\<open>seed\<close> (src/lib/seed.ts)\<close>

text \<open>
  A document is the object \<^verbatim>\<open>{ url: page.url, content: chunk }\<close>: the shape of a page.
\<close>

type_synonym document = page

text \<open>The inner loop, over the chunks of one page, and the outer loop, over the pages.\<close>

fun push_chunks :: "document list \<Rightarrow> page \<Rightarrow> string list \<Rightarrow> document list" where
  "push_chunks documents p [] = documents"
| "push_chunks documents p (chunk # chunks) =
     push_chunks (documents @ [\<lparr>url = url p, content = chunk\<rparr>]) p chunks"

fun chunk_pages :: "(string \<Rightarrow> string list) \<Rightarrow> document list \<Rightarrow> page list \<Rightarrow> document list" where
  "chunk_pages splitText documents [] = documents"
| "chunk_pages splitText documents (p # ps) =
     chunk_pages splitText (push_chunks documents p (splitText (content p))) ps"

text \<open>
  The object \<^verbatim>\<open>{ chunkSize: 1000, chunkOverlap: 200, ...splitterOptions }\<close>: a key of
  \<^verbatim>\<open>splitterOptions\<close> replaces the one written before the spread.
\<close>

definition splitter_fields :: "splitter_options option \<Rightarrow> splitter_params" where
  "splitter_fields splitterOptions =
     \<lparr>chunkSize =
        (case splitterOptions of None \<Rightarrow> 1000
         | Some opts \<Rightarrow> (case chunkSize_opt opts of None \<Rightarrow> 1000 | Some c \<Rightarrow> c)),
      chunkOverlap =
        (case splitterOptions of None \<Rightarrow> 200
         | Some opts \<Rightarrow> (case chunkOverlap_opt opts of None \<Rightarrow> 200 | Some c \<Rightarrow> c))\<rparr>"

definition seed_crawler :: "int option \<Rightarrow> int option \<Rightarrow> crawler" where
  "seed_crawler maxDepth_arg maxPages_arg =
     new_Crawler (Some (case maxDepth_arg of None \<Rightarrow> 2 | Some d \<Rightarrow> d))
                 (Some (case maxPages_arg of None \<Rightarrow> 1 | Some p \<Rightarrow> p))"

definition seed ::
  "world \<Rightarrow> string \<Rightarrow> int option \<Rightarrow> int option \<Rightarrow> splitter_options option \<Rightarrow> error + document list" where
  "seed w startUrl maxDepth_arg maxPages_arg splitterOptions =
     (case fst (crawl w (seed_crawler maxDepth_arg maxPages_arg) startUrl) of
        Inl e \<Rightarrow> Inl e
      | Inr ps \<Rightarrow>
          (case text_splitter w (splitter_fields splitterOptions) of
             None \<Rightarrow> Inl SplitterError
           | Some splitText \<Rightarrow> Inr (chunk_pages splitText [] ps)))"

section \<open>\<^verbatim>\<open>sliceIntoChunks\<close> (src/lib/utils.ts)\<close>

text \<open>
  \<^verbatim>\<open>Array.prototype.slice(start, end)\<close>: a negative index counts from the end, and both
  indices are clamped to the array.
\<close>

definition slice :: "'a list \<Rightarrow> int \<Rightarrow> int \<Rightarrow> 'a list" where
  "slice arr start end =
     (let len = int (length arr);
          k = (if start < 0 then max (len + start) 0 else min start len);
          final = (if end < 0 then max (len + end) 0 else min end len)
      in take (nat (final - k)) (drop (nat k) arr))"

text \<open>
  \<^verbatim>\<open>Math.ceil(arr.length / chunkSize)\<close> is \<open>- ((- len) div chunkSize)\<close> for a chunk size
  other than 0; a length that is not positive gives the empty array. With chunk size 0
  the quotient is \<^verbatim>\<open>NaN\<close> for the empty array (length 0) and \<^verbatim>\<open>Infinity\<close> otherwise, a
  length \<^verbatim>\<open>Array.from\<close> refuses with a \<^verbatim>\<open>RangeError\<close>.
\<close>

definition sliceIntoChunks :: "'a list \<Rightarrow> int \<Rightarrow> error + 'a list list" where
  "sliceIntoChunks arr chunk_size =
     (if chunk_size = 0 then (if arr = [] then Inr [] else Inl RangeError)
      else
        (let n = - ((- int (length arr)) div chunk_size)
         in Inr (map (\<lambda>i. slice arr (int i * chunk_size) ((int i + 1) * chunk_size)) [0..<nat n])))"

section \<open>Small webs and sample states\<close>

text \<open>
  A web of three addresses: \<open>a\<close> links to \<open>b\<close>, \<open>c\<close> and itself, \<open>b\<close> links to \<open>c\<close>, and
  the request for \<open>c\<close> (or any other address) is rejected. Markup is left as it is, every
  \<^verbatim>\<open>href\<close> is absolute, and the splitter makes one chunk of a text that is not empty.
\<close>

definition tiny_web :: world where
  "tiny_web =
     \<lparr>fetch = (\<lambda>u. if u = ''a'' then Some \<lparr>status = 200, text_body = Some ''A''\<rparr>
                 else if u = ''b'' then Some \<lparr>status = 200, text_body = Some ''B''\<rparr>
                 else None),
      strip_href = (\<lambda>h. h),
      translate = (\<lambda>h. h),
      anchor_hrefs = (\<lambda>h. if h = ''A'' then [''b'', ''c'', ''a'']
                        else if h = ''B'' then [''c''] else []),
      new_URL = (\<lambda>href base. Some href),
      text_splitter = (\<lambda>p. Some (\<lambda>t. if t = [] then [] else [t]))\<rparr>"

text \<open>A web whose server answers every request with status 404 and a body.\<close>

definition web_404 :: world where
  "web_404 =
     \<lparr>fetch = (\<lambda>u. Some \<lparr>status = 404, text_body = Some ''Not Found''\<rparr>),
      strip_href = (\<lambda>h. h),
      translate = (\<lambda>h. h),
      anchor_hrefs = (\<lambda>h. []),
      new_URL = (\<lambda>href base. Some href),
      text_splitter = (\<lambda>p. Some (\<lambda>t. if t = [] then [] else [t]))\<rparr>"

text \<open>
  Two states of a crawler in the loop, with depth limit 2 and page limit 3: in the first
  the front of the queue is an address already seen, in the second it is an address at
  depth 3.
\<close>

definition seen_again :: crawler where
  "seen_again =
     \<lparr>seen = {''a''}, pages = [\<lparr>url = ''a'', content = ''A''\<rparr>],
      queue = [(''a'', 1), (''c'', 1)], maxDepth = 2, maxPages = 3,
      requests = [(''a'', 0)]\<rparr>"

definition beyond_depth :: crawler where
  "beyond_depth =
     \<lparr>seen = {''a''}, pages = [\<lparr>url = ''a'', content = ''A''\<rparr>],
      queue = [(''c'', 3), (''b'', 1)], maxDepth = 2, maxPages = 3,
      requests = [(''a'', 0)]\<rparr>"

text \<open>
  A crawler that has been used once: what \<^verbatim>\<open>crawl\<close> leaves of a new crawler with depth
  limit 0 and page limit 2 after the crawl of the small web from \<open>b\<close>.
\<close>

definition used_crawler :: crawler where
  "used_crawler = snd (crawl tiny_web (new_Crawler (Some 0) (Some 2)) ''b'')"

text \<open>
  A web in which a failed request is not the last one: \<open>a\<close> links to \<open>c\<close> and then to
  \<open>b\<close>, and the request for \<open>c\<close> is rejected. The splitter depends on its fields: its
  constructor throws unless the overlap is smaller than the chunk size, and a text longer
  than the chunk size is cut in two chunks that overlap.
\<close>

definition second_web :: world where
  "second_web =
     \<lparr>fetch = (\<lambda>u. if u = ''a'' then Some \<lparr>status = 200, text_body = Some ''abcdef''\<rparr>
                 else if u = ''b'' then Some \<lparr>status = 200, text_body = Some ''xy''\<rparr>
                 else None),
      strip_href = (\<lambda>h. h),
      translate = (\<lambda>h. h),
      anchor_hrefs = (\<lambda>h. if h = ''abcdef'' then [''c'', ''b''] else []),
      new_URL = (\<lambda>href base. Some href),
      text_splitter =
        (\<lambda>p. if chunkOverlap p \<ge> chunkSize p then None
             else Some (\<lambda>t. if t = [] then []
                            else if int (length t) \<le> chunkSize p then [t]
                            else [take (nat (chunkSize p)) t,
                                  drop (nat (chunkSize p - chunkOverlap p)) t]))\<rparr>"

text \<open>
  The state of the crawl of that web from \<open>a\<close>, with depth limit 2 and page limit 3,
  after the first pass: the front of the queue is the address whose request fails.
\<close>

definition failed_next :: crawler where
  "failed_next =
     \<lparr>seen = {''a''}, pages = [\<lparr>url = ''a'', content = ''abcdef''\<rparr>],
      queue = [(''c'', 1), (''b'', 1)], maxDepth = 2, maxPages = 3,
      requests = [(''a'', 0)]\<rparr>"

section \<open>Termination of the crawl loop\<close>

lemma crawl_body_maxPages: "maxPages (snd (crawl_body w s)) = maxPages s"
  by (simp add: crawl_body_def addNewUrlsToQueue_def Let_def split: list.splits sum.splits prod.splits)

lemma crawl_body_decreases:
  assumes "shouldContinueCrawling s"
  shows "length (pages (snd (crawl_body w s))) = length (pages s) \<and>
           length (queue (snd (crawl_body w s))) < length (queue s)
         \<or> length (pages (snd (crawl_body w s))) = Suc (length (pages s))"
  using assms
  by (auto simp add: crawl_body_def addNewUrlsToQueue_def shouldContinueCrawling_def Let_def
      split: list.splits sum.splits)

termination crawl_loop
proof (relation "measures [\<lambda>(w, s). nat (maxPages s - int (length (pages s))),
                           \<lambda>(w, s). length (queue s)]")
  show "wf (measures [\<lambda>(w, s). nat (maxPages s - int (length (pages s))),
                      \<lambda>(w, s). length (queue s)])"
    by simp
next
  fix w :: world and s :: crawler and x2 :: unit
  assume c: "shouldContinueCrawling s"
  from crawl_body_decreases [OF c, of w] c
  show "((w, snd (crawl_body w s)), (w, s))
          \<in> measures [\<lambda>(w, s). nat (maxPages s - int (length (pages s))),
                      \<lambda>(w, s). length (queue s)]"
    by (auto simp add: crawl_body_maxPages shouldContinueCrawling_def)
qed

section \<open>The loop: one pass, and the states it reaches\<close>

declare crawl_loop.simps [simp del]

lemma crawl_body_cases [consumes 1, case_names skip throw visit]:
  assumes "shouldContinueCrawling s"
  obtains
    (skip) u d rest where "queue s = (u, d) # rest" "d > maxDepth s \<or> u \<in> seen s"
      "crawl_body w s = (Inr (), s\<lparr>queue := rest\<rparr>)"
  | (throw) u d rest e t where "queue s = (u, d) # rest" "d \<le> maxDepth s" "u \<notin> seen s"
      "links w u = Inl e" "crawl_body w s = (Inl e, t)"
      "seen t = insert u (seen s)" "pages t = pages s @ [\<lparr>url = u, content = parseHtml w (fetchPage w u)\<rparr>]"
      "queue t = rest" "requests t = requests s @ [(u, d)]"
      "maxDepth t = maxDepth s" "maxPages t = maxPages s"
  | (visit) u d rest urls t where "queue s = (u, d) # rest" "d \<le> maxDepth s" "u \<notin> seen s"
      "links w u = Inr urls" "crawl_body w s = (Inr (), t)"
      "seen t = insert u (seen s)" "pages t = pages s @ [\<lparr>url = u, content = parseHtml w (fetchPage w u)\<rparr>]"
      "queue t = rest @ map (\<lambda>v. (v, d + 1)) urls" "requests t = requests s @ [(u, d)]"
      "maxDepth t = maxDepth s" "maxPages t = maxPages s"
proof -
  from assms obtain u d rest where q: "queue s = (u, d) # rest"
    by (cases "queue s") (auto simp: shouldContinueCrawling_def)
  show thesis
  proof (cases "d > maxDepth s \<or> u \<in> seen s")
    case True
    with q have "crawl_body w s = (Inr (), s\<lparr>queue := rest\<rparr>)"
      by (auto simp: crawl_body_def isTooDeep_def isAlreadySeen_def)
    with q True show thesis by (rule skip)
  next
    case False
    show thesis
    proof (cases "links w u")
      case (Inl e)
      with q False show thesis
        by (intro throw [of u d rest e "snd (crawl_body w s)"])
           (auto simp: crawl_body_def isTooDeep_def isAlreadySeen_def links_def Let_def)
    next
      case (Inr urls)
      with q False show thesis
        by (intro visit [of u d rest urls "snd (crawl_body w s)"])
           (auto simp: crawl_body_def isTooDeep_def isAlreadySeen_def links_def Let_def
                       addNewUrlsToQueue_def)
    qed
  qed
qed

lemma crawl_loop_state: "loop_state w s (snd (crawl_loop w s))"
proof (induction w s rule: crawl_loop.induct)
  case (1 w s)
  show ?case
  proof (cases "shouldContinueCrawling s")
    case False
    then show ?thesis by (simp add: crawl_loop.simps [of w s] loop_state.entry)
  next
    case True
    have p: "loop_state w s (snd (crawl_body w s))"
      using loop_state.pass [OF loop_state.entry True] .
    show ?thesis
    proof (cases "fst (crawl_body w s)")
      case (Inl e)
      with True p show ?thesis by (simp add: crawl_loop.simps [of w s])
    next
      case (Inr x)
      from "1.IH" [OF True Inr] have "loop_state w (snd (crawl_body w s)) (snd (crawl_loop w (snd (crawl_body w s))))" .
      then have "loop_state w s (snd (crawl_loop w (snd (crawl_body w s))))"
        by (induction rule: loop_state.induct) (auto intro: p loop_state.pass)
      with True Inr show ?thesis by (simp add: crawl_loop.simps [of w s])
    qed
  qed
qed

lemma crawl_loop_returns:
  "fst (crawl_loop w s) = Inr ps \<Longrightarrow>
     ps = pages (snd (crawl_loop w s)) \<and> \<not> shouldContinueCrawling (snd (crawl_loop w s))"
proof (induction w s rule: crawl_loop.induct)
  case (1 w s)
  show ?case
  proof (cases "shouldContinueCrawling s")
    case False
    with "1.prems" show ?thesis by (simp add: crawl_loop.simps [of w s])
  next
    case True
    show ?thesis
    proof (cases "fst (crawl_body w s)")
      case (Inl e)
      with True "1.prems" show ?thesis by (simp add: crawl_loop.simps [of w s])
    next
      case (Inr x)
      with True "1.prems" have "fst (crawl_loop w (snd (crawl_body w s))) = Inr ps"
        by (simp add: crawl_loop.simps [of w s])
      from "1.IH" [OF True Inr this] True Inr show ?thesis
        by (simp add: crawl_loop.simps [of w s])
    qed
  qed
qed

lemma loop_state_limits:
  "loop_state w s t \<Longrightarrow> maxPages t = maxPages s \<and> maxDepth t = maxDepth s"
proof (induction rule: loop_state.induct)
  case entry
  show ?case by simp
next
  case (pass t)
  from pass.hyps(2) pass.IH show ?case
    by (cases rule: crawl_body_cases [where w = w]) auto
qed

lemma loop_state_bound:
  assumes "loop_state w s t" and "int (length (pages s)) \<le> maxPages s"
  shows "int (length (pages t)) \<le> maxPages t"
  using assms
proof (induction rule: loop_state.induct)
  case entry
  then show ?case by simp
next
  case (pass t)
  then have b: "int (length (pages t)) < maxPages t"
    by (simp add: shouldContinueCrawling_def)
  from pass.hyps(2) b show ?case
    by (cases rule: crawl_body_cases [where w = w]) auto
qed

lemma loop_state_requests:
  assumes "loop_state w s t" and "map url (pages s) = map fst (requests s)"
  shows "map url (pages t) = map fst (requests t)"
  using assms
proof (induction rule: loop_state.induct)
  case entry
  then show ?case by simp
next
  case (pass t)
  then have ih: "map url (pages t) = map fst (requests t)" by simp
  from pass.hyps(2) ih show ?case
    by (cases rule: crawl_body_cases [where w = w]) auto
qed

lemma loop_state_grows:
  assumes "loop_state w s t"
  shows "prefix (pages s) (pages t) \<and> seen s \<subseteq> seen t \<and> prefix (requests s) (requests t)"
  using assms
proof (induction rule: loop_state.induct)
  case entry
  show ?case by simp
next
  case (pass t)
  from pass.hyps(2) pass.IH show ?case
    by (cases rule: crawl_body_cases [where w = w]) (auto intro: prefix_order.order_trans)
qed

lemma loop_state_hops:
  assumes "loop_state w s t"
    and "\<forall>(u, d) \<in> set (queue s). \<exists>n. d = int n \<and> hops w a n u"
    and "\<forall>(u, d) \<in> set (requests s). d \<le> maxDepth s \<and> (\<exists>n. d = int n \<and> hops w a n u)"
  shows "(\<forall>(u, d) \<in> set (queue t). \<exists>n. d = int n \<and> hops w a n u) \<and>
         (\<forall>(u, d) \<in> set (requests t). d \<le> maxDepth s \<and> (\<exists>n. d = int n \<and> hops w a n u))"
  using assms
proof (induction rule: loop_state.induct)
  case entry
  then show ?case by simp
next
  case (pass t)
  then have q: "\<forall>(u, d) \<in> set (queue t). \<exists>n. d = int n \<and> hops w a n u"
    and r: "\<forall>(u, d) \<in> set (requests t). d \<le> maxDepth s \<and> (\<exists>n. d = int n \<and> hops w a n u)"
    by simp_all
  from loop_state_limits [OF pass.hyps(1)] have m: "maxDepth t = maxDepth s" by simp
  from pass.hyps(2) show ?case
  proof (cases rule: crawl_body_cases [where w = w])
    case (skip u d rest)
    with q r show ?thesis by auto
  next
    case (throw u d rest e t')
    with q r m show ?thesis by auto
  next
    case (visit u d rest urls t')
    from visit(1) q obtain n where n: "d = int n" "hops w a n u" by auto
    have "\<exists>k. d + 1 = int k \<and> hops w a k v" if "v \<in> set urls" for v
    proof -
      from n(2) visit(4) that have "hops w a (Suc n) v" by (rule hops.link_hop)
      with n(1) show ?thesis by (intro exI [of _ "Suc n"]) simp
    qed
    with visit q r m n show ?thesis by auto
  qed
qed

lemma sorted_map_const: "sorted (map (\<lambda>v. (c::int)) xs)"
  by (induction xs) auto

lemma loop_state_breadth_first:
  assumes "loop_state w s t"
    and "sorted (map snd (requests s) @ map snd (queue s))"
    and "\<forall>x \<in> set (queue s). \<forall>y \<in> set (queue s). snd y \<le> snd x + 1"
  shows "sorted (map snd (requests t) @ map snd (queue t)) \<and>
         (\<forall>x \<in> set (queue t). \<forall>y \<in> set (queue t). snd y \<le> snd x + 1)"
  using assms
proof (induction rule: loop_state.induct)
  case entry
  then show ?case by simp
next
  case (pass t)
  then have o: "sorted (map snd (requests t) @ map snd (queue t))"
    and g: "\<forall>x \<in> set (queue t). \<forall>y \<in> set (queue t). snd y \<le> snd x + 1"
    by simp_all
  from pass.hyps(2) show ?case
  proof (cases rule: crawl_body_cases [where w = w])
    case (skip u d rest)
    from o g skip(1) have "sorted (map snd (requests t) @ map snd rest)"
      and "\<forall>x \<in> set rest. \<forall>y \<in> set rest. snd y \<le> snd x + 1"
      by (simp_all add: sorted_append)
    with skip(3) show ?thesis by simp
  next
    case (throw u d rest e t')
    from o g throw(1) have "sorted ((map snd (requests t) @ [d]) @ map snd rest)"
      and "\<forall>x \<in> set rest. \<forall>y \<in> set rest. snd y \<le> snd x + 1"
      by (auto simp add: sorted_append)
    with throw show ?thesis by simp
  next
    case (visit u d rest urls t')
    from o visit(1) have r: "sorted (map snd (requests t))" "\<forall>x \<in> set (requests t). snd x \<le> d"
      and rq: "\<forall>x \<in> set (requests t). \<forall>y \<in> set rest. snd x \<le> snd y"
      and q: "sorted (map snd rest)" "\<forall>y \<in> set rest. d \<le> snd y"
      by (auto simp add: sorted_append)
    from g visit(1) have u: "\<forall>y \<in> set rest. snd y \<le> d + 1"
      by simp
    have 1: "sorted (map snd (requests t') @ map snd (queue t'))"
      unfolding visit(8,9) using r rq q u
      by (auto simp add: sorted_append sorted_map_const comp_def intro: order_trans)
    have 2: "\<forall>x \<in> set (queue t'). \<forall>y \<in> set (queue t'). snd y \<le> snd x + 1"
      unfolding visit(8) using q u by fastforce
    from 1 2 visit(5) show ?thesis by simp
  qed
qed

section \<open>A crawl on a new crawler\<close>

lemma crawl_result:
  assumes "fst (crawl w c a) = Inr ps"
  shows "ps = pages (snd (crawl w c a))"
    and "loop_state w (addToQueue c a None) (snd (crawl w c a))"
  using crawl_loop_returns [of w "addToQueue c a None" ps] assms
  by (simp_all add: crawl_def crawl_loop_state)

text \<open>The crawl of the small web from \<open>a\<close>, with depth limit 2 and page limit 3.\<close>

lemma tiny_crawl:
  "crawl tiny_web (new_Crawler (Some 2) (Some 3)) ''a'' =
     (Inr [\<lparr>url = ''a'', content = ''A''\<rparr>, \<lparr>url = ''b'', content = ''B''\<rparr>,
           \<lparr>url = ''c'', content = ''''\<rparr>],
      \<lparr>seen = {''c'', ''b'', ''a''},
       pages = [\<lparr>url = ''a'', content = ''A''\<rparr>, \<lparr>url = ''b'', content = ''B''\<rparr>,
                \<lparr>url = ''c'', content = ''''\<rparr>],
       queue = [(''a'', 1), (''c'', 2)], maxDepth = 2, maxPages = 3,
       requests = [(''a'', 0), (''b'', 1), (''c'', 1)]\<rparr>)"
  by (simp add: crawl_def crawl_loop.simps crawl_body_def new_Crawler_def addToQueue_def
      shouldContinueCrawling_def isTooDeep_def isAlreadySeen_def fetchPage_def parseHtml_def
      extractUrls_def addNewUrlsToQueue_def tiny_web_def Let_def)

text \<open>
  Claim C1. A crawl on a new crawler whose page limit is not negative never holds more
  than \<^verbatim>\<open>maxPages\<close> pages: the bound holds in every state the loop passes through, and
  for the array that \<^verbatim>\<open>crawl\<close> returns.
\<close>

theorem crawl_at_most_maxPages:
  assumes "c = new_Crawler D P" and "0 \<le> maxPages c"
  shows "(loop_state w (addToQueue c a None) t \<longrightarrow> int (length (pages t)) \<le> maxPages c) \<and>
         (fst (crawl w c a) = Inr ps \<longrightarrow> int (length ps) \<le> maxPages c)"
proof -
  let ?s = "addToQueue c a None"
  from assms have b: "int (length (pages ?s)) \<le> maxPages ?s"
    by (simp add: addToQueue_def new_Crawler_def)
  have m: "maxPages ?s = maxPages c" by (simp add: addToQueue_def)
  have 1: "int (length (pages t)) \<le> maxPages c" if "loop_state w ?s t" for t
    using loop_state_bound [OF that b] loop_state_limits [OF that] m by simp
  have 2: "int (length ps) \<le> maxPages c" if "fst (crawl w c a) = Inr ps"
    using 1 [OF crawl_result(2) [OF that]] crawl_result(1) [OF that] by simp
  from 1 2 show ?thesis by simp
qed

theorem crawl_at_most_maxPages_witness:
  "0 \<le> maxPages (new_Crawler (Some 2) (Some 3)) \<and>
   loop_state tiny_web (addToQueue (new_Crawler (Some 2) (Some 3)) ''a'' None)
     (snd (crawl tiny_web (new_Crawler (Some 2) (Some 3)) ''a'')) \<and>
   fst (crawl tiny_web (new_Crawler (Some 2) (Some 3)) ''a'') =
     Inr [\<lparr>url = ''a'', content = ''A''\<rparr>, \<lparr>url = ''b'', content = ''B''\<rparr>,
          \<lparr>url = ''c'', content = ''''\<rparr>] \<and>
   int (length (pages (snd (crawl tiny_web (new_Crawler (Some 2) (Some 3)) ''a'')))) \<le> 3 \<and>
   int (length [\<lparr>url = ''a'', content = ''A''\<rparr>, \<lparr>url = ''b'', content = ''B''\<rparr>,
                \<lparr>url = ''c'', content = ''''\<rparr>]) \<le> maxPages (new_Crawler (Some 2) (Some 3))"
proof -
  have l: "0 \<le> maxPages (new_Crawler (Some 2) (Some 3))"
    by (simp add: new_Crawler_def)
  have r: "fst (crawl tiny_web (new_Crawler (Some 2) (Some 3)) ''a'') =
     Inr [\<lparr>url = ''a'', content = ''A''\<rparr>, \<lparr>url = ''b'', content = ''B''\<rparr>,
          \<lparr>url = ''c'', content = ''''\<rparr>]"
    by (simp add: tiny_crawl)
  from crawl_at_most_maxPages [OF refl l, where w = tiny_web and a = "''a''"
      and t = "snd (crawl tiny_web (new_Crawler (Some 2) (Some 3)) ''a'')"
      and ps = "[\<lparr>url = ''a'', content = ''A''\<rparr>, \<lparr>url = ''b'', content = ''B''\<rparr>,
                 \<lparr>url = ''c'', content = ''''\<rparr>]"]
    crawl_result(2) [OF r] l r
  show ?thesis by (simp add: new_Crawler_def)
qed

lemma loop_state_seen:
  assumes "loop_state w s t" and "seen s = fst ` set (requests s)"
    and "distinct (map fst (requests s))"
  shows "seen t = fst ` set (requests t) \<and> distinct (map fst (requests t))"
  using assms
proof (induction rule: loop_state.induct)
  case entry
  then show ?case by simp
next
  case (pass t)
  then have ih: "seen t = fst ` set (requests t)" "distinct (map fst (requests t))"
    by simp_all
  from pass.hyps(2) ih show ?case
    by (cases rule: crawl_body_cases [where w = w]) auto
qed

lemma crawl_body_discards:
  assumes "queue s = (u, d) # rest" and "d > maxDepth s \<or> u \<in> seen s"
  shows "crawl_body w s = (Inr (), s\<lparr>queue := rest\<rparr>)"
  using assms by (auto simp: crawl_body_def isTooDeep_def isAlreadySeen_def)

lemma crawl_body_seen_once:
  assumes "shouldContinueCrawling s"
  shows "(seen (snd (crawl_body w s)) = seen s \<and> requests (snd (crawl_body w s)) = requests s \<and>
          pages (snd (crawl_body w s)) = pages s) \<or>
         (\<exists>u d. u \<notin> seen s \<and> seen (snd (crawl_body w s)) = insert u (seen s) \<and>
            requests (snd (crawl_body w s)) = requests s @ [(u, d)] \<and>
            pages (snd (crawl_body w s)) =
              pages s @ [\<lparr>url = u, content = parseHtml w (fetchPage w u)\<rparr>])"
  using assms
proof (cases rule: crawl_body_cases [where w = w])
  case (skip u d rest)
  then show ?thesis by simp
next
  case (throw u d rest e t)
  then show ?thesis by auto
next
  case (visit u d rest urls t)
  then show ?thesis by auto
qed

lemma tiny_links: "links tiny_web ''a'' = Inr [''b'', ''c'', ''a'']"
  by (simp add: links_def extractUrls_def fetchPage_def tiny_web_def)

text \<open>
  Claim C2. In a crawl on a new crawler no address appears twice among the pages: in
  every state of the loop the addresses of the pages are distinct, they are the addresses
  requested, in the same order, and \<^verbatim>\<open>seen\<close> holds exactly the requested addresses. One
  pass of the body either leaves \<^verbatim>\<open>seen\<close>, the requests and the pages as they are, or
  adds to \<^verbatim>\<open>seen\<close> one address that was not in it, requests that address once and pushes
  its page. An entry whose address is already in \<^verbatim>\<open>seen\<close> is only taken off the queue:
  nothing is requested and no page is pushed.
\<close>

theorem crawl_no_address_twice:
  assumes "c = new_Crawler D P"
  shows "(fst (crawl w c a) = Inr ps \<longrightarrow> distinct (map url ps)) \<and>
         (loop_state w (addToQueue c a None) t \<longrightarrow>
            distinct (map url (pages t)) \<and> map url (pages t) = map fst (requests t) \<and>
            seen t = fst ` set (requests t)) \<and>
         (shouldContinueCrawling s \<longrightarrow>
            (seen (snd (crawl_body w s)) = seen s \<and>
             requests (snd (crawl_body w s)) = requests s \<and>
             pages (snd (crawl_body w s)) = pages s) \<or>
            (\<exists>u d. u \<notin> seen s \<and> seen (snd (crawl_body w s)) = insert u (seen s) \<and>
               requests (snd (crawl_body w s)) = requests s @ [(u, d)] \<and>
               pages (snd (crawl_body w s)) =
                 pages s @ [\<lparr>url = u, content = parseHtml w (fetchPage w u)\<rparr>])) \<and>
         (queue s = (u, d) # rest \<and> u \<in> seen s \<longrightarrow>
            crawl_body w s = (Inr (), s\<lparr>queue := rest\<rparr>))"
proof -
  let ?s = "addToQueue c a None"
  from assms have f: "seen ?s = {}" "pages ?s = []" "requests ?s = []"
    by (simp_all add: addToQueue_def new_Crawler_def)
  have 1: "distinct (map url (pages t)) \<and> map url (pages t) = map fst (requests t) \<and>
           seen t = fst ` set (requests t)" if l: "loop_state w ?s t" for t
    using loop_state_seen [OF l] loop_state_requests [OF l] f by simp
  have 2: "distinct (map url ps)" if r: "fst (crawl w c a) = Inr ps"
  proof -
    from 1 [OF crawl_result(2) [OF r]] have "distinct (map url (pages (snd (crawl w c a))))"
      by (rule conjunct1)
    with crawl_result(1) [OF r] show ?thesis by simp
  qed
  from 1 2 crawl_body_seen_once [of s w] crawl_body_discards [of s u d rest w]
  show ?thesis by blast
qed

theorem crawl_no_address_twice_witness:
  "fst (crawl tiny_web (new_Crawler (Some 2) (Some 3)) ''a'') =
     Inr [\<lparr>url = ''a'', content = ''A''\<rparr>, \<lparr>url = ''b'', content = ''B''\<rparr>,
          \<lparr>url = ''c'', content = ''''\<rparr>] \<and>
   distinct (map url [\<lparr>url = ''a'', content = ''A''\<rparr>, \<lparr>url = ''b'', content = ''B''\<rparr>,
                      \<lparr>url = ''c'', content = ''''\<rparr>]) \<and>
   loop_state tiny_web (addToQueue (new_Crawler (Some 2) (Some 3)) ''a'' None)
     (snd (crawl tiny_web (new_Crawler (Some 2) (Some 3)) ''a'')) \<and>
   seen (snd (crawl tiny_web (new_Crawler (Some 2) (Some 3)) ''a'')) =
     fst ` set (requests (snd (crawl tiny_web (new_Crawler (Some 2) (Some 3)) ''a''))) \<and>
   shouldContinueCrawling seen_again \<and>
   queue seen_again = (''a'', 1) # [(''c'', 1)] \<and> ''a'' \<in> seen seen_again \<and>
   crawl_body tiny_web seen_again = (Inr (), seen_again\<lparr>queue := [(''c'', 1)]\<rparr>) \<and>
   seen (snd (crawl_body tiny_web seen_again)) = seen seen_again \<and>
   requests (snd (crawl_body tiny_web seen_again)) = requests seen_again \<and>
   pages (snd (crawl_body tiny_web seen_again)) = pages seen_again"
proof -
  have r: "fst (crawl tiny_web (new_Crawler (Some 2) (Some 3)) ''a'') =
     Inr [\<lparr>url = ''a'', content = ''A''\<rparr>, \<lparr>url = ''b'', content = ''B''\<rparr>,
          \<lparr>url = ''c'', content = ''''\<rparr>]"
    by (simp add: tiny_crawl)
  have g: "shouldContinueCrawling seen_again"
    and q: "queue seen_again = (''a'', 1) # [(''c'', 1)] \<and> ''a'' \<in> seen seen_again"
    by (simp_all add: seen_again_def shouldContinueCrawling_def)
  from crawl_no_address_twice [OF refl, where w = tiny_web and a = "''a''"
      and D = "Some 2" and P = "Some 3"
      and t = "snd (crawl tiny_web (new_Crawler (Some 2) (Some 3)) ''a'')"
      and ps = "[\<lparr>url = ''a'', content = ''A''\<rparr>, \<lparr>url = ''b'', content = ''B''\<rparr>,
                 \<lparr>url = ''c'', content = ''''\<rparr>]"
      and s = seen_again and u = "''a''" and d = 1 and rest = "[(''c'', 1)]"]
    crawl_result(2) [OF r] r g q
  show ?thesis by simp
qed

text \<open>
  Claim C3. In a crawl on a new crawler with depth limit \<open>maxDepth c\<close>, every page
  returned has an address that some number \<open>n \<le> maxDepth c\<close> of link hops reaches from the
  start address; in every state of the loop each request was made for a queue entry of
  depth at most the limit, and that depth is a number of hops that reaches the address.
  An entry deeper than the limit is only taken off the queue: nothing is requested and no
  page is pushed.
\<close>

theorem crawl_within_maxDepth:
  assumes "c = new_Crawler D P"
  shows "(fst (crawl w c a) = Inr ps \<longrightarrow>
            (\<forall>p \<in> set ps. \<exists>n. int n \<le> maxDepth c \<and> hops w a n (url p))) \<and>
         (loop_state w (addToQueue c a None) t \<longrightarrow>
            map url (pages t) = map fst (requests t) \<and>
            (\<forall>(u, d) \<in> set (requests t). d \<le> maxDepth c \<and> (\<exists>n. d = int n \<and> hops w a n u))) \<and>
         (queue s = (u, d) # rest \<and> d > maxDepth s \<longrightarrow>
            crawl_body w s = (Inr (), s\<lparr>queue := rest\<rparr>))"
proof -
  let ?s = "addToQueue c a None"
  from assms have f: "queue ?s = [(a, 0)]" "pages ?s = []" "requests ?s = []"
    "maxDepth ?s = maxDepth c"
    by (simp_all add: addToQueue_def new_Crawler_def)
  have q: "\<forall>(u, d) \<in> set (queue ?s). \<exists>n. d = int n \<and> hops w a n u"
    using f(1) by (auto intro: hops.seed_hop exI [of _ 0])
  have r: "\<forall>(u, d) \<in> set (requests ?s). d \<le> maxDepth ?s \<and> (\<exists>n. d = int n \<and> hops w a n u)"
    using f(3) by simp
  have 1: "map url (pages t) = map fst (requests t) \<and>
           (\<forall>(u, d) \<in> set (requests t). d \<le> maxDepth c \<and> (\<exists>n. d = int n \<and> hops w a n u))"
    if l: "loop_state w ?s t" for t
    using loop_state_hops [OF l q r] loop_state_requests [OF l] f by simp
  have 2: "\<forall>p \<in> set ps. \<exists>n. int n \<le> maxDepth c \<and> hops w a n (url p)"
    if res: "fst (crawl w c a) = Inr ps"
  proof
    fix p assume "p \<in> set ps"
    let ?t = "snd (crawl w c a)"
    from 1 [OF crawl_result(2) [OF res]] crawl_result(1) [OF res]
    have m: "map url ps = map fst (requests ?t)"
      and h: "\<forall>(u, d) \<in> set (requests ?t). d \<le> maxDepth c \<and> (\<exists>n. d = int n \<and> hops w a n u)"
      by simp_all
    from \<open>p \<in> set ps\<close> have "url p \<in> set (map url ps)" by simp
    with m have "url p \<in> fst ` set (requests ?t)" by simp
    then obtain d where "(url p, d) \<in> set (requests ?t)" by force
    with h show "\<exists>n. int n \<le> maxDepth c \<and> hops w a n (url p)" by auto
  qed
  have 3: "crawl_body w s = (Inr (), s\<lparr>queue := rest\<rparr>)"
    if "queue s = (u, d) # rest \<and> d > maxDepth s"
    using that by (simp add: crawl_body_discards)
  have A: "fst (crawl w c a) = Inr ps \<longrightarrow>
            (\<forall>p \<in> set ps. \<exists>n. int n \<le> maxDepth c \<and> hops w a n (url p))"
    by (rule impI) (rule 2)
  have B: "loop_state w ?s t \<longrightarrow>
            map url (pages t) = map fst (requests t) \<and>
            (\<forall>(u, d) \<in> set (requests t). d \<le> maxDepth c \<and> (\<exists>n. d = int n \<and> hops w a n u))"
    by (rule impI) (rule 1)
  have C: "queue s = (u, d) # rest \<and> d > maxDepth s \<longrightarrow>
            crawl_body w s = (Inr (), s\<lparr>queue := rest\<rparr>)"
    by (rule impI) (rule 3)
  show ?thesis
    by (rule conjI [OF A conjI [OF B C]])
qed

theorem crawl_within_maxDepth_witness:
  "fst (crawl tiny_web (new_Crawler (Some 2) (Some 3)) ''a'') =
     Inr [\<lparr>url = ''a'', content = ''A''\<rparr>, \<lparr>url = ''b'', content = ''B''\<rparr>,
          \<lparr>url = ''c'', content = ''''\<rparr>] \<and>
   (\<exists>n. int n \<le> 2 \<and> hops tiny_web ''a'' n ''c'') \<and>
   loop_state tiny_web (addToQueue (new_Crawler (Some 2) (Some 3)) ''a'' None)
     (snd (crawl tiny_web (new_Crawler (Some 2) (Some 3)) ''a'')) \<and>
   requests (snd (crawl tiny_web (new_Crawler (Some 2) (Some 3)) ''a'')) =
     [(''a'', 0), (''b'', 1), (''c'', 1)] \<and>
   queue beyond_depth = (''c'', 3) # [(''b'', 1)] \<and> 3 > maxDepth beyond_depth \<and>
   crawl_body tiny_web beyond_depth = (Inr (), beyond_depth\<lparr>queue := [(''b'', 1)]\<rparr>)"
proof -
  have r: "fst (crawl tiny_web (new_Crawler (Some 2) (Some 3)) ''a'') =
     Inr [\<lparr>url = ''a'', content = ''A''\<rparr>, \<lparr>url = ''b'', content = ''B''\<rparr>,
          \<lparr>url = ''c'', content = ''''\<rparr>]"
    by (simp add: tiny_crawl)
  have q: "queue beyond_depth = (''c'', 3) # [(''b'', 1)] \<and> 3 > maxDepth beyond_depth"
    by (simp add: beyond_depth_def)
  have m: "maxDepth (new_Crawler (Some 2) (Some 3)) = 2"
    by (simp add: new_Crawler_def)
  from crawl_within_maxDepth [OF refl, where w = tiny_web and a = "''a''"
      and D = "Some 2" and P = "Some 3"
      and t = "snd (crawl tiny_web (new_Crawler (Some 2) (Some 3)) ''a'')"
      and ps = "[\<lparr>url = ''a'', content = ''A''\<rparr>, \<lparr>url = ''b'', content = ''B''\<rparr>,
                 \<lparr>url = ''c'', content = ''''\<rparr>]"
      and s = beyond_depth and u = "''c''" and d = 3 and rest = "[(''b'', 1)]"]
    crawl_result(2) [OF r] r q m
  show ?thesis by (simp add: tiny_crawl)
qed

text \<open>
  Claim C5. The queue is first in, first out, and links are queued without any filter:
  a pass that processes the front entry \<open>(u, d)\<close> leaves the rest of the queue followed
  by every address extracted from the page, in extraction order, each at depth \<open>d + 1\<close>.
  In a crawl on a new crawler the pages are in the order of the requests, and the depths
  of the requests never decrease: every page of depth \<open>k\<close> comes before every page of
  depth \<open>k + 1\<close>.
\<close>

theorem crawl_breadth_first:
  assumes "c = new_Crawler D P"
  shows "(shouldContinueCrawling s \<and> queue s = (u, d) # rest \<and> d \<le> maxDepth s \<and> u \<notin> seen s \<and>
          links w u = Inr urls \<longrightarrow>
            crawl_body w s =
              (Inr (),
               s\<lparr>seen := insert u (seen s),
                 pages := pages s @ [\<lparr>url = u, content = parseHtml w (fetchPage w u)\<rparr>],
                 queue := rest @ map (\<lambda>v. (v, d + 1)) urls,
                 requests := requests s @ [(u, d)]\<rparr>)) \<and>
         (loop_state w (addToQueue c a None) t \<longrightarrow>
            map url (pages t) = map fst (requests t) \<and> sorted (map snd (requests t))) \<and>
         (fst (crawl w c a) = Inr ps \<longrightarrow>
            map url ps = map fst (requests (snd (crawl w c a))) \<and>
            sorted (map snd (requests (snd (crawl w c a)))))"
proof -
  let ?s = "addToQueue c a None"
  from assms have f: "queue ?s = [(a, 0)]" "pages ?s = []" "requests ?s = []"
    by (simp_all add: addToQueue_def new_Crawler_def)
  have 0: "crawl_body w s =
              (Inr (),
               s\<lparr>seen := insert u (seen s),
                 pages := pages s @ [\<lparr>url = u, content = parseHtml w (fetchPage w u)\<rparr>],
                 queue := rest @ map (\<lambda>v. (v, d + 1)) urls,
                 requests := requests s @ [(u, d)]\<rparr>)"
    if "queue s = (u, d) # rest" "d \<le> maxDepth s" "u \<notin> seen s" "links w u = Inr urls"
    using that
    by (simp add: crawl_body_def isTooDeep_def isAlreadySeen_def links_def Let_def
        addNewUrlsToQueue_def)
  have 1: "map url (pages t) = map fst (requests t) \<and> sorted (map snd (requests t))"
    if l: "loop_state w ?s t" for t
    using loop_state_breadth_first [OF l] loop_state_requests [OF l] f
    by (simp add: sorted_append)
  have 2: "map url ps = map fst (requests (snd (crawl w c a))) \<and>
            sorted (map snd (requests (snd (crawl w c a))))"
    if res: "fst (crawl w c a) = Inr ps"
    using 1 [OF crawl_result(2) [OF res]] crawl_result(1) [OF res] by simp
  show ?thesis
    by (intro conjI impI) (rule 0, simp_all add: 1 2)
qed

theorem crawl_breadth_first_witness:
  "shouldContinueCrawling (addToQueue (new_Crawler (Some 2) (Some 3)) ''a'' None) \<and>
   crawl_body tiny_web (addToQueue (new_Crawler (Some 2) (Some 3)) ''a'' None) =
     (Inr (),
      \<lparr>seen = {''a''}, pages = [\<lparr>url = ''a'', content = ''A''\<rparr>],
       queue = [(''b'', 1), (''c'', 1), (''a'', 1)], maxDepth = 2, maxPages = 3,
       requests = [(''a'', 0)]\<rparr>) \<and>
   loop_state tiny_web (addToQueue (new_Crawler (Some 2) (Some 3)) ''a'' None)
     (snd (crawl tiny_web (new_Crawler (Some 2) (Some 3)) ''a'')) \<and>
   fst (crawl tiny_web (new_Crawler (Some 2) (Some 3)) ''a'') =
     Inr [\<lparr>url = ''a'', content = ''A''\<rparr>, \<lparr>url = ''b'', content = ''B''\<rparr>,
          \<lparr>url = ''c'', content = ''''\<rparr>] \<and>
   requests (snd (crawl tiny_web (new_Crawler (Some 2) (Some 3)) ''a'')) =
     [(''a'', 0), (''b'', 1), (''c'', 1)] \<and>
   sorted (map snd (requests (snd (crawl tiny_web (new_Crawler (Some 2) (Some 3)) ''a''))))"
proof -
  let ?s = "addToQueue (new_Crawler (Some 2) (Some 3)) ''a'' None"
  have r: "fst (crawl tiny_web (new_Crawler (Some 2) (Some 3)) ''a'') =
     Inr [\<lparr>url = ''a'', content = ''A''\<rparr>, \<lparr>url = ''b'', content = ''B''\<rparr>,
          \<lparr>url = ''c'', content = ''''\<rparr>]"
    by (simp add: tiny_crawl)
  have h: "shouldContinueCrawling ?s \<and> queue ?s = (''a'', 0) # [] \<and> 0 \<le> maxDepth ?s \<and>
           ''a'' \<notin> seen ?s \<and> links tiny_web ''a'' = Inr [''b'', ''c'', ''a'']"
    by (simp add: tiny_links addToQueue_def new_Crawler_def shouldContinueCrawling_def)
  note bf = crawl_breadth_first [OF refl, where w = tiny_web and a = "''a''"
      and D = "Some 2" and P = "Some 3"
      and t = "snd (crawl tiny_web (new_Crawler (Some 2) (Some 3)) ''a'')"
      and ps = "[\<lparr>url = ''a'', content = ''A''\<rparr>, \<lparr>url = ''b'', content = ''B''\<rparr>,
                 \<lparr>url = ''c'', content = ''''\<rparr>]"
      and s = ?s and u = "''a''" and d = 0 and rest = "[]" and urls = "[''b'', ''c'', ''a'']"]
  from bf h have b: "crawl_body tiny_web ?s =
     (Inr (),
      \<lparr>seen = {''a''}, pages = [\<lparr>url = ''a'', content = ''A''\<rparr>],
       queue = [(''b'', 1), (''c'', 1), (''a'', 1)], maxDepth = 2, maxPages = 3,
       requests = [(''a'', 0)]\<rparr>)"
    by (simp add: addToQueue_def new_Crawler_def parseHtml_def fetchPage_def tiny_web_def)
  from bf crawl_result(2) [OF r] r have o:
    "sorted (map snd (requests (snd (crawl tiny_web (new_Crawler (Some 2) (Some 3)) ''a''))))"
    by simp
  have q: "requests (snd (crawl tiny_web (new_Crawler (Some 2) (Some 3)) ''a'')) =
     [(''a'', 0), (''b'', 1), (''c'', 1)]"
    by (simp add: tiny_crawl)
  from h b crawl_result(2) [OF r] r q o show ?thesis by simp
qed

section \<open>Failed requests, a page limit of 0, and a crawler used twice\<close>

lemmas crawl_eval = crawl_def crawl_loop.simps crawl_body_def new_Crawler_def addToQueue_def
      shouldContinueCrawling_def isTooDeep_def isAlreadySeen_def fetchPage_def parseHtml_def
      extractUrls_def addNewUrlsToQueue_def Let_def

lemma fetchPage_rejected:
  assumes "fetch w u = None \<or> (\<exists>r. fetch w u = Some r \<and> text_body r = None)"
  shows "fetchPage w u = ''''"
  using assms by (auto simp: fetchPage_def)

lemma fetchPage_body:
  assumes "fetch w v = Some r" and "text_body r = Some b"
  shows "fetchPage w v = b"
  using assms by (simp add: fetchPage_def)

lemma crawl_body_empty_content:
  assumes "fetchPage w u = ''''" and "queue s = (u, d) # rest" and "d \<le> maxDepth s" and "u \<notin> seen s"
  shows "pages (snd (crawl_body w s)) = pages s @ [\<lparr>url = u, content = parseHtml w ''''\<rparr>]"
    and "anchor_hrefs w '''' = [] \<Longrightarrow>
         crawl_body w s =
           (Inr (), s\<lparr>seen := insert u (seen s),
                      pages := pages s @ [\<lparr>url = u, content = parseHtml w ''''\<rparr>],
                      queue := rest,
                      requests := requests s @ [(u, d)]\<rparr>)"
  using assms
  by (auto simp: crawl_body_def isTooDeep_def isAlreadySeen_def Let_def addNewUrlsToQueue_def
      extractUrls_def split: sum.splits)

lemma crawl_failed_seed:
  assumes "fetchPage w u = ''''" and "anchor_hrefs w '''' = []"
    and "1 \<le> maxPages (new_Crawler D P)" and "0 \<le> maxDepth (new_Crawler D P)"
  shows "fst (crawl w (new_Crawler D P) u) = Inr [\<lparr>url = u, content = parseHtml w ''''\<rparr>]"
proof -
  let ?s = "addToQueue (new_Crawler D P) u None"
  have q: "queue ?s = (u, 0) # []" and d: "0 \<le> maxDepth ?s" and n: "u \<notin> seen ?s"
    and g: "shouldContinueCrawling ?s"
    using assms(3,4) by (simp_all add: addToQueue_def new_Crawler_def shouldContinueCrawling_def)
  note b = crawl_body_empty_content(2) [OF assms(1) q d n assms(2)]
  have "\<not> shouldContinueCrawling (snd (crawl_body w ?s))"
    by (simp add: b shouldContinueCrawling_def)
  then have "crawl_loop w (snd (crawl_body w ?s)) =
               (Inr (pages (snd (crawl_body w ?s))), snd (crawl_body w ?s))"
    by (simp add: crawl_loop.simps [of w "snd (crawl_body w ?s)"])
  with g b have "fst (crawl_loop w ?s) = Inr (pages (snd (crawl_body w ?s)))"
    by (simp add: crawl_loop.simps [of w ?s])
  moreover have "pages (snd (crawl_body w ?s)) = [\<lparr>url = u, content = parseHtml w ''''\<rparr>]"
    unfolding b by (simp add: addToQueue_def new_Crawler_def)
  ultimately show ?thesis
    by (simp add: crawl_def)
qed

lemma used_crawler_fields:
  "used_crawler =
     \<lparr>seen = {''b''}, pages = [\<lparr>url = ''b'', content = ''B''\<rparr>], queue = [],
      maxDepth = 0, maxPages = 2, requests = [(''b'', 0)]\<rparr>"
  by (simp add: used_crawler_def crawl_eval tiny_web_def)

text \<open>
  Claim C4, as stated, fails for a response whose status is not 2xx: \<^verbatim>\<open>fetch\<close> resolves
  with the response, nothing is thrown, and \<^verbatim>\<open>fetchPage\<close> returns the body. The page of
  the crawl carries the text of that body, not the text of the empty content.
\<close>

theorem fetchPage_not_found_counterexample:
  "fetch web_404 ''a'' = Some \<lparr>status = 404, text_body = Some ''Not Found''\<rparr> \<and>
   fetchPage web_404 ''a'' = ''Not Found'' \<and>
   fetchPage web_404 ''a'' \<noteq> '''' \<and>
   fst (crawl web_404 (new_Crawler (Some 2) (Some 1)) ''a'') =
     Inr [\<lparr>url = ''a'', content = ''Not Found''\<rparr>]"
  by (simp add: crawl_eval web_404_def)

lemma crawl_loop_goes_on:
  assumes "shouldContinueCrawling s" and "crawl_body w s = (Inr (), s')"
  shows "crawl_loop w s = crawl_loop w s'"
  using assms by (simp add: crawl_loop.simps [of w s])

lemma crawl_body_empty_content_links:
  assumes "fetchPage w u = ''''" and "queue s = (u, d) # rest" and "d \<le> maxDepth s"
    and "u \<notin> seen s" and "links w u = Inr urls"
  shows "crawl_body w s =
           (Inr (), s\<lparr>seen := insert u (seen s),
                      pages := pages s @ [\<lparr>url = u, content = parseHtml w ''''\<rparr>],
                      queue := rest @ map (\<lambda>v. (v, d + 1)) urls,
                      requests := requests s @ [(u, d)]\<rparr>)"
  using assms
  by (simp add: crawl_body_def isTooDeep_def isAlreadySeen_def Let_def addNewUrlsToQueue_def
      links_def)

lemma second_crawl:
  "crawl second_web (new_Crawler (Some 2) (Some 3)) ''a'' =
     (Inr [\<lparr>url = ''a'', content = ''abcdef''\<rparr>, \<lparr>url = ''c'', content = ''''\<rparr>,
           \<lparr>url = ''b'', content = ''xy''\<rparr>],
      \<lparr>seen = {''b'', ''c'', ''a''},
       pages = [\<lparr>url = ''a'', content = ''abcdef''\<rparr>, \<lparr>url = ''c'', content = ''''\<rparr>,
                \<lparr>url = ''b'', content = ''xy''\<rparr>],
       queue = [], maxDepth = 2, maxPages = 3,
       requests = [(''a'', 0), (''c'', 1), (''b'', 1)]\<rparr>)"
  by (simp add: crawl_eval second_web_def)

lemma second_crawl_first_pass:
  "crawl_body second_web (addToQueue (new_Crawler (Some 2) (Some 3)) ''a'' None) =
     (Inr (), failed_next)"
  by (simp add: crawl_eval second_web_def failed_next_def)

text \<open>
  Claim C4, amended. \<^verbatim>\<open>fetchPage\<close> returns the empty string when the request is rejected
  or reading the body is rejected, and the body of the response otherwise, whatever its
  status. When it returns the empty string for the front entry that is processed, the
  page of that address is still pushed, with the text converted from the empty content;
  when the empty content has no anchors the pass ends normally. The loop then goes on:
  whenever extraction from the empty content does not throw, the crawl from the state
  before the pass is the crawl from the state after it, with the rest of the queue still
  to be processed. A crawl on a new crawler, with room for one page and depth 0, whose
  start address fails returns that one page.
\<close>

theorem fetch_failure_not_fatal:
  "(fetch w u = None \<or> (\<exists>r. fetch w u = Some r \<and> text_body r = None) \<longrightarrow>
      fetchPage w u = '''') \<and>
   (fetch w v = Some r \<and> text_body r = Some b \<longrightarrow> fetchPage w v = b) \<and>
   (fetchPage w u = '''' \<and> queue s = (u, d) # rest \<and> d \<le> maxDepth s \<and> u \<notin> seen s \<longrightarrow>
      pages (snd (crawl_body w s)) = pages s @ [\<lparr>url = u, content = parseHtml w ''''\<rparr>]) \<and>
   (fetchPage w u = '''' \<and> queue s = (u, d) # rest \<and> d \<le> maxDepth s \<and> u \<notin> seen s \<and>
    anchor_hrefs w '''' = [] \<longrightarrow>
      crawl_body w s =
        (Inr (), s\<lparr>seen := insert u (seen s),
                   pages := pages s @ [\<lparr>url = u, content = parseHtml w ''''\<rparr>],
                   queue := rest,
                   requests := requests s @ [(u, d)]\<rparr>)) \<and>
   (fetchPage w u = '''' \<and> anchor_hrefs w '''' = [] \<and>
    1 \<le> maxPages (new_Crawler D P) \<and> 0 \<le> maxDepth (new_Crawler D P) \<longrightarrow>
      fst (crawl w (new_Crawler D P) u) = Inr [\<lparr>url = u, content = parseHtml w ''''\<rparr>]) \<and>
   (shouldContinueCrawling s \<and> fetchPage w u = '''' \<and> queue s = (u, d) # rest \<and>
    d \<le> maxDepth s \<and> u \<notin> seen s \<and> links w u = Inr urls \<longrightarrow>
      crawl_loop w s =
        crawl_loop w
          (s\<lparr>seen := insert u (seen s),
             pages := pages s @ [\<lparr>url = u, content = parseHtml w ''''\<rparr>],
             queue := rest @ map (\<lambda>v. (v, d + 1)) urls,
             requests := requests s @ [(u, d)]\<rparr>))"
proof -
  have "crawl_loop w s =
        crawl_loop w
          (s\<lparr>seen := insert u (seen s),
             pages := pages s @ [\<lparr>url = u, content = parseHtml w ''''\<rparr>],
             queue := rest @ map (\<lambda>v. (v, d + 1)) urls,
             requests := requests s @ [(u, d)]\<rparr>)"
    if "shouldContinueCrawling s" "fetchPage w u = ''''" "queue s = (u, d) # rest"
      "d \<le> maxDepth s" "u \<notin> seen s" "links w u = Inr urls"
    using crawl_loop_goes_on [OF that(1) crawl_body_empty_content_links [OF that(2-6)]] .
  with fetchPage_rejected [of w u] fetchPage_body [of w v r b]
    crawl_body_empty_content [of w u s d rest] crawl_failed_seed [of w u D P]
  show ?thesis by blast
qed

theorem fetch_failure_not_fatal_witness:
  "fetch tiny_web ''c'' = None \<and> fetchPage tiny_web ''c'' = '''' \<and>
   fetch web_404 ''a'' = Some \<lparr>status = 404, text_body = Some ''Not Found''\<rparr> \<and>
   fetchPage web_404 ''a'' = ''Not Found'' \<and>
   queue (seen_again\<lparr>queue := [(''c'', 1)]\<rparr>) = (''c'', 1) # [] \<and>
   1 \<le> maxDepth (seen_again\<lparr>queue := [(''c'', 1)]\<rparr>) \<and>
   ''c'' \<notin> seen (seen_again\<lparr>queue := [(''c'', 1)]\<rparr>) \<and>
   anchor_hrefs tiny_web '''' = [] \<and>
   pages (snd (crawl_body tiny_web (seen_again\<lparr>queue := [(''c'', 1)]\<rparr>))) =
     [\<lparr>url = ''a'', content = ''A''\<rparr>, \<lparr>url = ''c'', content = ''''\<rparr>] \<and>
   crawl_body tiny_web (seen_again\<lparr>queue := [(''c'', 1)]\<rparr>) =
     (Inr (),
      \<lparr>seen = {''c'', ''a''},
       pages = [\<lparr>url = ''a'', content = ''A''\<rparr>, \<lparr>url = ''c'', content = ''''\<rparr>],
       queue = [], maxDepth = 2, maxPages = 3, requests = [(''a'', 0), (''c'', 1)]\<rparr>) \<and>
   1 \<le> maxPages (new_Crawler (Some 2) (Some 3)) \<and>
   0 \<le> maxDepth (new_Crawler (Some 2) (Some 3)) \<and>
   fst (crawl tiny_web (new_Crawler (Some 2) (Some 3)) ''c'') =
     Inr [\<lparr>url = ''c'', content = ''''\<rparr>] \<and>
   shouldContinueCrawling failed_next \<and> fetchPage second_web ''c'' = '''' \<and>
   queue failed_next = (''c'', 1) # [(''b'', 1)] \<and> 1 \<le> maxDepth failed_next \<and>
   ''c'' \<notin> seen failed_next \<and> links second_web ''c'' = Inr [] \<and>
   crawl_loop second_web failed_next =
     crawl_loop second_web
       \<lparr>seen = {''c'', ''a''},
        pages = [\<lparr>url = ''a'', content = ''abcdef''\<rparr>, \<lparr>url = ''c'', content = ''''\<rparr>],
        queue = [(''b'', 1)], maxDepth = 2, maxPages = 3,
        requests = [(''a'', 0), (''c'', 1)]\<rparr> \<and>
   fst (crawl_loop second_web
       \<lparr>seen = {''c'', ''a''},
        pages = [\<lparr>url = ''a'', content = ''abcdef''\<rparr>, \<lparr>url = ''c'', content = ''''\<rparr>],
        queue = [(''b'', 1)], maxDepth = 2, maxPages = 3,
        requests = [(''a'', 0), (''c'', 1)]\<rparr>) =
     Inr [\<lparr>url = ''a'', content = ''abcdef''\<rparr>, \<lparr>url = ''c'', content = ''''\<rparr>,
          \<lparr>url = ''b'', content = ''xy''\<rparr>] \<and>
   fst (crawl second_web (new_Crawler (Some 2) (Some 3)) ''a'') =
     Inr [\<lparr>url = ''a'', content = ''abcdef''\<rparr>, \<lparr>url = ''c'', content = ''''\<rparr>,
          \<lparr>url = ''b'', content = ''xy''\<rparr>]"
proof -
  let ?s = "seen_again\<lparr>queue := [(''c'', 1)]\<rparr>"
  let ?t = "\<lparr>seen = {''c'', ''a''},
        pages = [\<lparr>url = ''a'', content = ''abcdef''\<rparr>, \<lparr>url = ''c'', content = ''''\<rparr>],
        queue = [(''b'', 1)], maxDepth = 2, maxPages = 3,
        requests = [(''a'', 0), (''c'', 1)]\<rparr>"
  have f: "fetch tiny_web ''c'' = None"
    and h: "anchor_hrefs tiny_web '''' = []" and p: "parseHtml tiny_web '''' = ''''"
    by (simp_all add: tiny_web_def parseHtml_def)
  have g: "fetch web_404 ''a'' = Some \<lparr>status = 404, text_body = Some ''Not Found''\<rparr> \<and>
           text_body \<lparr>status = 404, text_body = Some ''Not Found''\<rparr> = Some ''Not Found''"
    by (simp add: web_404_def)
  have q: "queue ?s = (''c'', 1) # [] \<and> 1 \<le> maxDepth ?s \<and> ''c'' \<notin> seen ?s"
    by (simp add: seen_again_def)
  have l: "1 \<le> maxPages (new_Crawler (Some 2) (Some 3)) \<and>
           0 \<le> maxDepth (new_Crawler (Some 2) (Some 3))"
    by (simp add: new_Crawler_def)
  note t = fetch_failure_not_fatal [where w = tiny_web and u = "''c''" and s = ?s and d = 1
      and rest = "[]" and D = "Some 2" and P = "Some 3"]
  note n = fetch_failure_not_fatal [where w = web_404 and v = "''a''"
      and r = "\<lparr>status = 404, text_body = Some ''Not Found''\<rparr>" and b = "''Not Found''"]
  note c = fetch_failure_not_fatal [where w = second_web and u = "''c''" and s = failed_next
      and d = 1 and rest = "[(''b'', 1)]" and urls = "[]"]
  from t f have e: "fetchPage tiny_web ''c'' = ''''" by blast
  from n g have b: "fetchPage web_404 ''a'' = ''Not Found''" by blast
  from t e q have 1: "pages (snd (crawl_body tiny_web ?s)) =
      pages ?s @ [\<lparr>url = ''c'', content = parseHtml tiny_web ''''\<rparr>]" by blast
  from t e q h have 2: "crawl_body tiny_web ?s =
        (Inr (), ?s\<lparr>seen := insert ''c'' (seen ?s),
                   pages := pages ?s @ [\<lparr>url = ''c'', content = parseHtml tiny_web ''''\<rparr>],
                   queue := [],
                   requests := requests ?s @ [(''c'', 1)]\<rparr>)" by blast
  from t e h l have 3: "fst (crawl tiny_web (new_Crawler (Some 2) (Some 3)) ''c'') =
      Inr [\<lparr>url = ''c'', content = parseHtml tiny_web ''''\<rparr>]" by blast
  have k: "shouldContinueCrawling failed_next \<and> fetchPage second_web ''c'' = '''' \<and>
      queue failed_next = (''c'', 1) # [(''b'', 1)] \<and> 1 \<le> maxDepth failed_next \<and>
      ''c'' \<notin> seen failed_next \<and> links second_web ''c'' = Inr []"
    by (simp add: failed_next_def shouldContinueCrawling_def fetchPage_def links_def
        extractUrls_def second_web_def)
  from c k have "crawl_loop second_web failed_next =
      crawl_loop second_web
        (failed_next\<lparr>seen := insert ''c'' (seen failed_next),
           pages := pages failed_next @ [\<lparr>url = ''c'', content = parseHtml second_web ''''\<rparr>],
           queue := [(''b'', 1)] @ map (\<lambda>v. (v, 1 + 1)) [],
           requests := requests failed_next @ [(''c'', 1)]\<rparr>)"
    by blast
  then have 4: "crawl_loop second_web failed_next = crawl_loop second_web ?t"
    by (simp add: failed_next_def parseHtml_def second_web_def insert_commute)
  have "crawl_loop second_web (addToQueue (new_Crawler (Some 2) (Some 3)) ''a'' None) =
          crawl_loop second_web failed_next"
    by (rule crawl_loop_goes_on [OF _ second_crawl_first_pass])
       (simp add: shouldContinueCrawling_def addToQueue_def new_Crawler_def)
  with second_crawl 4 have 5: "fst (crawl_loop second_web ?t) =
     Inr [\<lparr>url = ''a'', content = ''abcdef''\<rparr>, \<lparr>url = ''c'', content = ''''\<rparr>,
          \<lparr>url = ''b'', content = ''xy''\<rparr>]"
    by (simp add: crawl_def)
  have 6: "fst (crawl second_web (new_Crawler (Some 2) (Some 3)) ''a'') =
     Inr [\<lparr>url = ''a'', content = ''abcdef''\<rparr>, \<lparr>url = ''c'', content = ''''\<rparr>,
          \<lparr>url = ''b'', content = ''xy''\<rparr>]"
    by (simp add: second_crawl)
  have A: "fetch tiny_web ''c'' = None \<and> fetchPage tiny_web ''c'' = '''' \<and>
   fetch web_404 ''a'' = Some \<lparr>status = 404, text_body = Some ''Not Found''\<rparr> \<and>
   fetchPage web_404 ''a'' = ''Not Found'' \<and>
   queue ?s = (''c'', 1) # [] \<and> 1 \<le> maxDepth ?s \<and> ''c'' \<notin> seen ?s \<and>
   anchor_hrefs tiny_web '''' = [] \<and>
   pages (snd (crawl_body tiny_web ?s)) =
     [\<lparr>url = ''a'', content = ''A''\<rparr>, \<lparr>url = ''c'', content = ''''\<rparr>] \<and>
   crawl_body tiny_web ?s =
     (Inr (),
      \<lparr>seen = {''c'', ''a''},
       pages = [\<lparr>url = ''a'', content = ''A''\<rparr>, \<lparr>url = ''c'', content = ''''\<rparr>],
       queue = [], maxDepth = 2, maxPages = 3, requests = [(''a'', 0), (''c'', 1)]\<rparr>) \<and>
   1 \<le> maxPages (new_Crawler (Some 2) (Some 3)) \<and>
   0 \<le> maxDepth (new_Crawler (Some 2) (Some 3)) \<and>
   fst (crawl tiny_web (new_Crawler (Some 2) (Some 3)) ''c'') =
     Inr [\<lparr>url = ''c'', content = ''''\<rparr>]"
    using f e g b q h l 3 unfolding 1 2 p by (simp add: seen_again_def)
  from A k 4 5 6 show ?thesis by blast
qed

text \<open>
  Claim C7. With page limit 0 a crawl on a new crawler returns the empty array: the loop
  condition is false when the loop is reached, so the start address stays in the queue,
  nothing is requested and no page is pushed.
\<close>

theorem crawl_maxPages_zero:
  "crawl w (new_Crawler D (Some 0)) a =
     (Inr [], (new_Crawler D (Some 0))\<lparr>queue := [(a, 0)]\<rparr>) \<and>
   requests (snd (crawl w (new_Crawler D (Some 0)) a)) = [] \<and>
   \<not> shouldContinueCrawling (addToQueue (new_Crawler D (Some 0)) a None)"
  by (simp add: crawl_def crawl_loop.simps new_Crawler_def addToQueue_def
      shouldContinueCrawling_def)

text \<open>
  Claim C8, as stated, fails for the second call of \<^verbatim>\<open>crawl\<close> on one crawler: after the
  crawl from \<open>b\<close> the fields \<^verbatim>\<open>seen\<close> and \<^verbatim>\<open>pages\<close> are not empty, and the crawl from
  \<open>c\<close> on the same crawler returns the page of \<open>b\<close> before the page of \<open>c\<close>, where a new
  crawler returns the page of \<open>c\<close> alone.
\<close>

theorem crawl_reuse_counterexample:
  "seen used_crawler = {''b''} \<and>
   pages used_crawler = [\<lparr>url = ''b'', content = ''B''\<rparr>] \<and>
   fst (crawl tiny_web used_crawler ''c'') =
     Inr [\<lparr>url = ''b'', content = ''B''\<rparr>, \<lparr>url = ''c'', content = ''''\<rparr>] \<and>
   fst (crawl tiny_web (new_Crawler (Some 0) (Some 2)) ''c'') =
     Inr [\<lparr>url = ''c'', content = ''''\<rparr>]"
  by (simp add: used_crawler_fields) (simp add: crawl_eval tiny_web_def)

text \<open>
  Claim C8, amended. \<^verbatim>\<open>seen\<close> and \<^verbatim>\<open>pages\<close> are fields of the crawler: they are empty
  in a new crawler, also in the one that \<^verbatim>\<open>seed\<close> constructs for each call, and \<^verbatim>\<open>crawl\<close>
  does not reset them: the array it returns is the field \<^verbatim>\<open>pages\<close>, it starts with the
  pages the crawler held before the call, and every address seen before the call is
  still seen after it.
\<close>

theorem crawl_keeps_state:
  "seen (new_Crawler D P) = {} \<and> pages (new_Crawler D P) = [] \<and>
   seen (seed_crawler D P) = {} \<and> pages (seed_crawler D P) = [] \<and>
   (crawl w c a = (Inr ps, c') \<longrightarrow>
      pages c' = ps \<and> prefix (pages c) ps \<and> seen c \<subseteq> seen c')"
proof -
  have "pages c' = ps \<and> prefix (pages c) ps \<and> seen c \<subseteq> seen c'"
    if r: "crawl w c a = (Inr ps, c')"
  proof -
    from r have f: "fst (crawl w c a) = Inr ps" and s: "snd (crawl w c a) = c'"
      by simp_all
    from crawl_result [OF f] s have p: "pages c' = ps"
      and l: "loop_state w (addToQueue c a None) c'"
      by simp_all
    from loop_state_grows [OF l] p show ?thesis
      by (simp add: addToQueue_def)
  qed
  then show ?thesis
    by (simp add: new_Crawler_def seed_crawler_def)
qed

theorem crawl_keeps_state_witness:
  "crawl tiny_web used_crawler ''c'' =
     (Inr [\<lparr>url = ''b'', content = ''B''\<rparr>, \<lparr>url = ''c'', content = ''''\<rparr>],
      \<lparr>seen = {''c'', ''b''},
       pages = [\<lparr>url = ''b'', content = ''B''\<rparr>, \<lparr>url = ''c'', content = ''''\<rparr>],
       queue = [], maxDepth = 0, maxPages = 2, requests = [(''b'', 0), (''c'', 0)]\<rparr>) \<and>
   pages used_crawler = [\<lparr>url = ''b'', content = ''B''\<rparr>] \<and>
   prefix (pages used_crawler)
     [\<lparr>url = ''b'', content = ''B''\<rparr>, \<lparr>url = ''c'', content = ''''\<rparr>] \<and>
   seen used_crawler = {''b''} \<and>
   seen used_crawler \<subseteq> {''c'', ''b''}"
proof -
  have r: "crawl tiny_web used_crawler ''c'' =
     (Inr [\<lparr>url = ''b'', content = ''B''\<rparr>, \<lparr>url = ''c'', content = ''''\<rparr>],
      \<lparr>seen = {''c'', ''b''},
       pages = [\<lparr>url = ''b'', content = ''B''\<rparr>, \<lparr>url = ''c'', content = ''''\<rparr>],
       queue = [], maxDepth = 0, maxPages = 2, requests = [(''b'', 0), (''c'', 0)]\<rparr>)"
    by (simp add: used_crawler_fields) (simp add: crawl_eval tiny_web_def)
  from crawl_keeps_state [where w = tiny_web and c = used_crawler and a = "''c''"
      and ps = "[\<lparr>url = ''b'', content = ''B''\<rparr>, \<lparr>url = ''c'', content = ''''\<rparr>]"
      and c' = "\<lparr>seen = {''c'', ''b''},
       pages = [\<lparr>url = ''b'', content = ''B''\<rparr>, \<lparr>url = ''c'', content = ''''\<rparr>],
       queue = [], maxDepth = 0, maxPages = 2, requests = [(''b'', 0), (''c'', 0)]\<rparr>"] r
  show ?thesis by (simp add: used_crawler_fields)
qed

section \<open>The chunking pass and the defaults of \<^verbatim>\<open>seed\<close>\<close>

lemma push_chunks_append:
  "push_chunks documents p chunks =
     documents @ map (\<lambda>chunk. \<lparr>url = url p, content = chunk\<rparr>) chunks"
  by (induction chunks arbitrary: documents) simp_all

lemma chunk_pages_append:
  "chunk_pages splitText documents ps =
     documents @
     concat (map (\<lambda>p. map (\<lambda>chunk. \<lparr>url = url p, content = chunk\<rparr>) (splitText (content p))) ps)"
  by (induction ps arbitrary: documents) (simp_all add: push_chunks_append)

lemma tiny_seed_crawl:
  "fst (crawl tiny_web (seed_crawler (Some 2) (Some 3)) ''a'') =
     Inr [\<lparr>url = ''a'', content = ''A''\<rparr>, \<lparr>url = ''b'', content = ''B''\<rparr>,
          \<lparr>url = ''c'', content = ''''\<rparr>]"
  by (simp add: seed_crawler_def tiny_crawl)

text \<open>
  Claim C6. The documents are the concatenation, in the order of the pages, of the chunks
  of each page in the order the splitter returns them, every document with the address
  of the page its chunk was split from. A page for which the splitter returns no chunk
  adds no document. \<^verbatim>\<open>seed\<close> returns these documents for the pages the crawl returns.
\<close>

theorem chunk_pages_in_order:
  "chunk_pages splitText [] ps =
     concat (map (\<lambda>p. map (\<lambda>chunk. \<lparr>url = url p, content = chunk\<rparr>) (splitText (content p))) ps) \<and>
   chunk_pages splitText documents (p # ps) =
     chunk_pages splitText
       (documents @ map (\<lambda>chunk. \<lparr>url = url p, content = chunk\<rparr>) (splitText (content p))) ps \<and>
   (splitText (content p) = [] \<longrightarrow>
      chunk_pages splitText documents (p # ps) = chunk_pages splitText documents ps) \<and>
   (fst (crawl w (seed_crawler D P) a) = Inr pgs \<and>
    text_splitter w (splitter_fields splitterOptions) = Some splitText \<longrightarrow>
      seed w a D P splitterOptions =
        Inr (concat (map (\<lambda>p. map (\<lambda>chunk. \<lparr>url = url p, content = chunk\<rparr>)
                                (splitText (content p))) pgs)))"
  by (simp add: chunk_pages_append push_chunks_append seed_def)

theorem chunk_pages_in_order_witness:
  "fst (crawl tiny_web (seed_crawler (Some 2) (Some 3)) ''a'') =
     Inr [\<lparr>url = ''a'', content = ''A''\<rparr>, \<lparr>url = ''b'', content = ''B''\<rparr>,
          \<lparr>url = ''c'', content = ''''\<rparr>] \<and>
   text_splitter tiny_web (splitter_fields None) = Some (\<lambda>t. if t = [] then [] else [t]) \<and>
   seed tiny_web ''a'' (Some 2) (Some 3) None =
     Inr [\<lparr>url = ''a'', content = ''A''\<rparr>, \<lparr>url = ''b'', content = ''B''\<rparr>] \<and>
   (\<lambda>t. if t = [] then [] else [t]) (content \<lparr>url = ''c'', content = ''''\<rparr>) = [] \<and>
   chunk_pages (\<lambda>t. if t = [] then [] else [t]) [\<lparr>url = ''a'', content = ''A''\<rparr>]
     [\<lparr>url = ''c'', content = ''''\<rparr>, \<lparr>url = ''b'', content = ''B''\<rparr>] =
   chunk_pages (\<lambda>t. if t = [] then [] else [t]) [\<lparr>url = ''a'', content = ''A''\<rparr>]
     [\<lparr>url = ''b'', content = ''B''\<rparr>]"
proof -
  have s: "text_splitter tiny_web (splitter_fields None) = Some (\<lambda>t. if t = [] then [] else [t])"
    by (simp add: tiny_web_def)
  from chunk_pages_in_order [where w = tiny_web and a = "''a''" and D = "Some 2" and P = "Some 3"
      and splitterOptions = None and splitText = "\<lambda>t. if t = [] then [] else [t]"
      and pgs = "[\<lparr>url = ''a'', content = ''A''\<rparr>, \<lparr>url = ''b'', content = ''B''\<rparr>,
                  \<lparr>url = ''c'', content = ''''\<rparr>]"
      and p = "\<lparr>url = ''c'', content = ''''\<rparr>"
      and documents = "[\<lparr>url = ''a'', content = ''A''\<rparr>]"
      and ps = "[\<lparr>url = ''b'', content = ''B''\<rparr>]"]
    tiny_seed_crawl s
  show ?thesis by simp
qed





section \<open>\<^verbatim>\<open>sliceIntoChunks\<close> with a positive chunk size\<close>

lemma slice_nat: "slice arr (int x) (int y) = take (y - x) (drop x arr)"
proof -
  have k: "(if int x < 0 then max (int (length arr) + int x) 0 else min (int x) (int (length arr)))
             = int (min x (length arr))"
    by simp
  have f: "(if int y < 0 then max (int (length arr) + int y) 0 else min (int y) (int (length arr)))
             = int (min y (length arr))"
    by simp
  have "slice arr (int x) (int y) =
          take (min y (length arr) - min x (length arr)) (drop (min x (length arr)) arr)"
    unfolding slice_def Let_def k f by (simp add: nat_diff_distrib')
  also have "\<dots> = take (y - x) (drop x arr)"
    by (cases "x \<le> length arr"; cases "y \<le> length arr") (simp_all add: min_def)
  finally show ?thesis .
qed

lemma slice_chunk:
  assumes "0 < n"
  shows "slice arr (int i * n) ((int i + 1) * n) = take (nat n) (drop (i * nat n) arr)"
proof -
  from assms obtain k where k: "n = int k"
    using zero_less_imp_eq_int [of n] by auto
  have a: "int i * n = int (i * k)" and b: "(int i + 1) * n = int (i * k + k)"
    by (simp_all add: k algebra_simps)
  show ?thesis
    unfolding a b slice_nat by (simp add: k)
qed

lemma concat_chunks:
  "concat (map (\<lambda>i. take k (drop (i * k) arr)) [0..<m]) = take (m * k) arr"
proof (induction m)
  case 0
  show ?case by simp
next
  case (Suc m)
  have "take (m * k) arr @ take k (drop (m * k) arr) = take (m * k + k) arr"
    by (simp add: take_add)
  with Suc show ?case by (simp add: add.commute)
qed

lemma ceil_count:
  assumes "0 < k"
  shows "nat (- ((- int len) div int k)) = (len + k - 1) div k"
proof -
  have "- ((- int len) div int k) = int ((len + k - 1) div k)"
  proof (cases "len = 0")
    case True
    with assms show ?thesis by simp
  next
    case False
    define q where "q = (len - 1) div k"
    define r where "r = (len - 1) mod k"
    have l: "len = q * k + r + 1" and rk: "r < k"
      using False assms by (simp_all add: q_def r_def)
    have "(len + k - 1) div k = q + 1"
    proof -
      have "len + k - 1 = (q + 1) * k + r" using l by simp
      with rk show ?thesis by (metis div_mult_self3 div_less add.right_neutral assms less_not_refl2)
    qed
    moreover have "(- int len) div int k = - int q - 1"
    proof -
      have "- int len = (- int q - 1) * int k + (int k - int r - 1)"
        using l by (simp add: algebra_simps)
      moreover have "0 \<le> int k - int r - 1" "int k - int r - 1 < int k"
        using rk by simp_all
      ultimately show ?thesis
        by (metis add.commute div_pos_pos_trivial div_mult_self1 of_nat_0_less_iff assms
            less_irrefl add.right_neutral mult.commute)
    qed
    ultimately show ?thesis by simp
  qed
  then show ?thesis by simp
qed

lemma sliceIntoChunks_nat:
  assumes "0 < k"
  shows "sliceIntoChunks arr (int k) =
           Inr (map (\<lambda>i. take k (drop (i * k) arr)) [0..<(length arr + k - 1) div k])"
proof -
  have p: "0 < int k" using assms by simp
  have "slice arr (int i * int k) ((int i + 1) * int k) = take k (drop (i * k) arr)" for i
    using slice_chunk [OF p, of arr i] by simp
  with assms show ?thesis
    by (simp add: sliceIntoChunks_def Let_def ceil_count)
qed

lemma chunk_count_bounds:
  assumes "0 < k"
  shows "length arr \<le> (length arr + k - 1) div k * k"
    and "(length arr + k - 1) div k * k \<le> length arr + k - 1"
proof -
  let ?t = "length arr + k - 1"
  have e: "?t div k * k + ?t mod k = ?t" by simp
  have "?t mod k < k" using assms by simp
  with e assms show "length arr \<le> ?t div k * k" by linarith
  from e show "?t div k * k \<le> ?t" by linarith
qed

text \<open>
  Claim C10. For a chunk size \<open>n \<ge> 1\<close>, \<^verbatim>\<open>sliceIntoChunks\<close> returns chunks whose
  concatenation, in order, is the array; every chunk has at most \<open>n\<close> elements, every
  chunk but the last has exactly \<open>n\<close>, and the empty array gives no chunk.
\<close>

theorem sliceIntoChunks_partition:
  assumes "1 \<le> n"
  shows "\<exists>chunks. sliceIntoChunks arr n = Inr chunks \<and> concat chunks = arr \<and>
           (\<forall>c \<in> set chunks. int (length c) \<le> n) \<and>
           (\<forall>i. Suc i < length chunks \<longrightarrow> int (length (chunks ! i)) = n) \<and>
           (arr = [] \<longrightarrow> chunks = [])"
proof -
  from assms obtain k where n: "n = int k" and k: "0 < k"
    using zero_less_imp_eq_int [of n] by auto
  let ?m = "(length arr + k - 1) div k"
  let ?chunks = "map (\<lambda>i. take k (drop (i * k) arr)) [0..<?m]"
  note b = chunk_count_bounds [OF k, of arr]
  have 1: "sliceIntoChunks arr n = Inr ?chunks"
    unfolding n by (rule sliceIntoChunks_nat [OF k])
  have 2: "concat ?chunks = arr"
    using b(1) by (simp add: concat_chunks)
  have 3: "\<forall>c \<in> set ?chunks. int (length c) \<le> n"
    by (auto simp: n)
  have 4: "int (length (?chunks ! i)) = n" if "Suc i < length ?chunks" for i
  proof -
    from that have i: "Suc (Suc i) \<le> ?m" by simp
    then have "Suc (Suc i) * k \<le> ?m * k" by (rule mult_le_mono1)
    with b(2) have "Suc (Suc i) * k \<le> length arr + k - 1" by linarith
    with k have "i * k + k \<le> length arr" by simp
    then have "k \<le> length arr - i * k" by linarith
    then have "min k (length arr - i * k) = k" by simp
    moreover from i have "i < ?m" by simp
    ultimately show ?thesis by (simp add: n)
  qed
  have 5: "arr = [] \<longrightarrow> ?chunks = []"
    using k by simp
  from 1 2 3 4 5 show ?thesis by blast
qed

theorem sliceIntoChunks_partition_witness:
  "(1::int) \<le> 2 \<and>
   sliceIntoChunks [1, 2, 3, 4, 5 :: nat] 2 = Inr [[1, 2], [3, 4], [5]] \<and>
   concat [[1, 2], [3, 4], [5 :: nat]] = [1, 2, 3, 4, 5] \<and>
   sliceIntoChunks ([] :: nat list) 2 = Inr []"
proof -
  have h: "(1::int) \<le> 2" by simp
  have e: "sliceIntoChunks [1, 2, 3, 4, 5 :: nat] 2 = Inr [[1, 2], [3, 4], [5]]"
    by (simp add: sliceIntoChunks_def slice_def Let_def upt_rec)
  from sliceIntoChunks_partition [OF h, of "[1, 2, 3, 4, 5 :: nat]"]
    sliceIntoChunks_partition [OF h, of "[] :: nat list"] e h
  show ?thesis by auto
qed

end
